theory Spec2Isabelle
  imports Main "HOL-Library.Sublist"
begin

section \<open>The substitution of \<open>fix_types.py\<close>\<close>

text \<open>
  The script reads one file, rewrites its text with
  \<^verbatim>\<open>re.sub(r'result as GenericData', 'result as unknown as GenericData', content)\<close>
  writes the text back to the same path and prints one line. A Python \<open>str\<close> is modelled
  as a \<open>string\<close>, one list element for each character of the \<open>str\<close>.
\<close>

subsection \<open>Errors\<close>

text \<open>
  Every exception the script can let escape is a value: those the file primitives raise
  when the path does not lead to a file that may be opened or the file does not decode,
  the \<open>OSError\<close> of a write the device refuses, and \<open>re.error\<close>.
\<close>

datatype error =
    FileNotFoundError
  | NotADirectoryError
  | IsADirectoryError
  | PermissionError
  | UnicodeDecodeError
  | OSError
  | ReError

subsection \<open>The fragment of \<open>re\<close> the script uses\<close>

text \<open>
  The pattern parser of \<open>re\<close> reads the pattern one character at a time. A character
  outside \<open>SPECIAL_CHARS\<close> becomes a \<open>LITERAL\<close> node; the dot becomes \<open>ANY\<close>, which
  matches every character but a newline (no flag is passed). The remaining special
  characters start constructs that are not modelled: the parser below rejects them.
\<close>

definition SPECIAL_CHARS :: "char list" where
  "SPECIAL_CHARS =
     [CHR ''.'', CHR 0x5C, CHR ''['', CHR ''{'', CHR ''('', CHR '')'',
      CHR ''*'', CHR ''+'', CHR ''?'', CHR ''^'', CHR ''$'', CHR ''|'']"

datatype node = LITERAL char | ANY

fun sre_parse :: "string \<Rightarrow> error + node list" where
  "sre_parse [] = Inr []"
| "sre_parse (c # cs) =
     (if c = CHR ''.'' then
        (case sre_parse cs of Inl e \<Rightarrow> Inl e | Inr ns \<Rightarrow> Inr (ANY # ns))
      else if c \<in> set SPECIAL_CHARS then Inl ReError
      else
        (case sre_parse cs of Inl e \<Rightarrow> Inl e | Inr ns \<Rightarrow> Inr (LITERAL c # ns)))"

text \<open>
  The replacement is a template: a backslash starts an escape or a group reference.
  A template without a backslash stands for itself; the others are not modelled.
\<close>

definition parse_template :: "string \<Rightarrow> error + string" where
  "parse_template repl = (if CHR 0x5C \<in> set repl then Inl ReError else Inr repl)"

fun node_matches :: "node \<Rightarrow> char \<Rightarrow> bool" where
  "node_matches (LITERAL a) c = (a = c)"
| "node_matches ANY c = (c \<noteq> CHR 0x0A)"

text \<open>
  \<open>match_at ns s\<close> matches the node sequence at the start of \<open>s\<close> and returns what
  follows the match.
\<close>

fun match_at :: "node list \<Rightarrow> string \<Rightarrow> string option" where
  "match_at [] s = Some s"
| "match_at (n # ns) [] = None"
| "match_at (n # ns) (c # cs) = (if node_matches n c then match_at ns cs else None)"

text \<open>
  The substitution loop: the scan tries a match at the current position. A match is
  replaced and the scan goes on behind it; without a match the character is copied and
  the scan moves one character on. An empty match (only the empty pattern has one) is
  replaced, then the character is copied. At the end of the text a last match is tried.
\<close>

function sub_loop :: "node list \<Rightarrow> string \<Rightarrow> string \<Rightarrow> string" where
  "sub_loop ns r [] = (case match_at ns [] of None \<Rightarrow> [] | Some _ \<Rightarrow> r)"
| "sub_loop ns r (c # cs) =
     (case match_at ns (c # cs) of
        None \<Rightarrow> c # sub_loop ns r cs
      | Some rest \<Rightarrow>
          if length rest < Suc (length cs) then r @ sub_loop ns r rest
          else r @ c # sub_loop ns r cs)"
  by pat_completeness auto
termination
  by (relation "measure (\<lambda>(ns, r, s). length s)") auto

definition re_sub :: "string \<Rightarrow> string \<Rightarrow> string \<Rightarrow> error + string" where
  "re_sub pat repl s =
     (case sre_parse pat of
        Inl e \<Rightarrow> Inl e
      | Inr ns \<Rightarrow>
          (case parse_template repl of
             Inl e \<Rightarrow> Inl e
           | Inr r \<Rightarrow> Inr (sub_loop ns r s)))"

subsection \<open>The rule of the script\<close>

definition pattern :: string where
  "pattern = ''result as GenericData''"

definition replacement :: string where
  "replacement = ''result as unknown as GenericData''"

text \<open>Line 8 of the script.\<close>

definition substitute :: "string \<Rightarrow> error + string" where
  "substitute content = re_sub pattern replacement content"

subsection \<open>Literal replacement, occurrences and pieces\<close>

text \<open>
  The specification speaks of replacing each leftmost, non-overlapping occurrence of a
  literal string, scanning left to right. \<open>replace_all\<close> is that scan written on
  strings alone, without a matcher: at each position the pattern either is a prefix of
  the rest, which is then replaced and skipped, or the character is kept. For the empty
  pattern it inserts the replacement before every character and at the end.
\<close>

function replace_all :: "string \<Rightarrow> string \<Rightarrow> string \<Rightarrow> string" where
  "replace_all p r [] = (if p = [] then r else [])"
| "replace_all p r (c # cs) =
     (if p = [] then r @ c # replace_all p r cs
      else if prefix p (c # cs) then r @ replace_all p r (drop (length p) (c # cs))
      else c # replace_all p r cs)"
  by pat_completeness auto
termination
  by (relation "measure (\<lambda>(p, r, s). length s)") auto

text \<open>
  \<open>count_occ p s\<close> counts the positions of \<open>s\<close> at which \<open>p\<close> occurs, overlapping
  occurrences included.
\<close>

fun count_occ :: "string \<Rightarrow> string \<Rightarrow> nat" where
  "count_occ p [] = (if p = [] then 1 else 0)"
| "count_occ p (c # cs) = (if prefix p (c # cs) then 1 else 0) + count_occ p cs"

text \<open>
  \<open>outside p s\<close> lists the pieces of \<open>s\<close> that lie outside the matches of the scan,
  in order: the text before the first match, between two matches, and after the last.
  \<open>join\<close> puts a separator between the pieces.
\<close>

function outside :: "string \<Rightarrow> string \<Rightarrow> string list" where
  "outside p [] = [[]]"
| "outside p (c # cs) =
     (if p \<noteq> [] \<and> prefix p (c # cs) then [] # outside p (drop (length p) (c # cs))
      else (case outside p cs of [] \<Rightarrow> [[c]] | seg # segs \<Rightarrow> (c # seg) # segs))"
  by pat_completeness auto
termination
  by (relation "measure (\<lambda>(p, s). length s)") auto

fun join :: "string \<Rightarrow> string list \<Rightarrow> string" where
  "join sep [] = []"
| "join sep [x] = x"
| "join sep (x # y # ys) = x @ sep @ join sep (y # ys)"

text \<open>
  Two strings agree when they are equal on their common length. \<open>free p b\<close> says that
  \<open>p\<close> cannot begin at any position of \<open>b\<close>, whatever follows \<open>b\<close>.
\<close>

fun agree :: "string \<Rightarrow> string \<Rightarrow> bool" where
  "agree [] b = True"
| "agree (x # a) [] = True"
| "agree (x # a) (y # b) = (x = y \<and> agree a b)"

fun free :: "string \<Rightarrow> string \<Rightarrow> bool" where
  "free p [] = True"
| "free p (x # b) = (\<not> agree p (x # b) \<and> free p b)"

section \<open>The script as a state transformer\<close>

subsection \<open>Files, the device and the console\<close>

text \<open>
  A file holds text, given here as \<open>read()\<close> returns it, or bytes that do not decode.
  It may be protected against reading or writing.

  Looking a path up ends in one of six ways. It leads to a regular file. Or its
  directories exist and can be searched and no entry has the last name; the flag says
  whether the directory lets an entry be created. Or a directory of the path is
  missing, or a component of the path is a regular file, or a directory of the path
  cannot be searched, or the path names a directory.
\<close>

type_synonym path = string

datatype file_data = Text string | Undecodable

record inode =
  data :: file_data
  readable :: bool
  writable :: bool

datatype entry =
    Regular inode
  | Absent bool
  | NoParent
  | NotDir
  | NoSearch
  | IsDir

text \<open>
  Standard output is open on something that takes the output, or it is closed
  (\<open>sys.stdout\<close> is \<open>None\<close>), or it is open on a device that refuses the output.
\<close>

datatype console = Accepting | Closed | Refusing

text \<open>
  The world is the result of the lookup for every path, the number of characters the
  device still accepts in a write to a file (\<open>None\<close>: no limit), the state of standard
  output and the lines that have reached it.
\<close>

record world =
  files :: "path \<Rightarrow> entry"
  room :: "nat option"
  console :: console
  stdout :: "string list"

definition target :: path where
  "target = ''/home/cid/CursorProjects/symindx/mind-agents/src/extensions/telegram/index.ts''"

text \<open>
  The error of an open whose path does not lead to a regular file and that creates
  nothing.
\<close>

fun lookup_error :: "entry \<Rightarrow> error" where
  "lookup_error (Regular f) = PermissionError"
| "lookup_error (Absent b) = FileNotFoundError"
| "lookup_error NoParent = FileNotFoundError"
| "lookup_error NotDir = NotADirectoryError"
| "lookup_error NoSearch = PermissionError"
| "lookup_error IsDir = IsADirectoryError"

text \<open>\<open>open(p, 'r')\<close>: the path must lead to a regular file that can be read.\<close>

definition open_read :: "world \<Rightarrow> path \<Rightarrow> error + inode" where
  "open_read w p =
     (case files w p of
        Regular f \<Rightarrow> if readable f then Inr f else Inl PermissionError
      | e \<Rightarrow> Inl (lookup_error e))"

text \<open>\<open>f.read()\<close>: the whole text, or a decoding error.\<close>

definition read_text :: "inode \<Rightarrow> error + string" where
  "read_text f = (case data f of Undecodable \<Rightarrow> Inl UnicodeDecodeError | Text s \<Rightarrow> Inr s)"

definition set_data :: "world \<Rightarrow> path \<Rightarrow> file_data \<Rightarrow> world" where
  "set_data w p d =
     w\<lparr>files := (files w)
          (p := (case files w p of Regular f \<Rightarrow> Regular (f\<lparr>data := d\<rparr>) | e \<Rightarrow> e))\<rparr>"

text \<open>
  \<open>open(p, 'w')\<close>: an existing file must be writable and is truncated to length zero by
  the open itself, before anything is written. Where no entry has the name, an empty
  file is created if the directory allows it.
\<close>

definition open_write :: "world \<Rightarrow> path \<Rightarrow> error + world" where
  "open_write w p =
     (case files w p of
        Regular f \<Rightarrow> if writable f then Inr (set_data w p (Text [])) else Inl PermissionError
      | Absent b \<Rightarrow>
          if b then
            Inr (w\<lparr>files := (files w)
                   (p := Regular \<lparr>data = Text [], readable = True, writable = True\<rparr>)\<rparr>)
          else Inl PermissionError
      | e \<Rightarrow> Inl (lookup_error e))"

text \<open>
  \<open>f.write(s)\<close> and the close that ends the \<open>with\<close> block: the device takes the text,
  or only as many characters as it has room for and the write raises \<open>OSError\<close>.
\<close>

definition write_text :: "world \<Rightarrow> path \<Rightarrow> string \<Rightarrow> (error + unit) \<times> world" where
  "write_text w p s =
     (case room w of
        None \<Rightarrow> (Inr (), set_data w p (Text s))
      | Some k \<Rightarrow>
          if length s \<le> k then (Inr (), set_data w p (Text s))
          else (Inl OSError, set_data w p (Text (take k s))))"

text \<open>
  \<open>print(l)\<close>. With standard output closed the call does nothing. Otherwise the line
  goes to the buffer of standard output, which is flushed when the interpreter exits:
  the line reaches an accepting output, and is lost on a refusing one. The call itself
  raises nothing in either case.
\<close>

definition print_line :: "string \<Rightarrow> world \<Rightarrow> world" where
  "print_line l w =
     (case console w of
        Accepting \<Rightarrow> w\<lparr>stdout := stdout w @ [l]\<rparr>
      | Closed \<Rightarrow> w
      | Refusing \<Rightarrow> w)"

subsection \<open>The three steps\<close>

text \<open>Lines 4 and 5: open the target for reading and read all of it.\<close>

definition read_content :: "world \<Rightarrow> error + string" where
  "read_content w =
     (case open_read w target of Inl e \<Rightarrow> Inl e | Inr f \<Rightarrow> read_text f)"

text \<open>Lines 11 and 12: open the target for writing and write the text.\<close>

definition write_content :: "world \<Rightarrow> string \<Rightarrow> (error + unit) \<times> world" where
  "write_content w s =
     (case open_write w target of
        Inl e \<Rightarrow> (Inl e, w)
      | Inr w1 \<Rightarrow> write_text w1 target s)"

text \<open>
  The script. An exception ends the run where it is raised, with the world as it is at
  that point; \<open>print\<close> is called when nothing was raised.
\<close>

definition fix_types :: "world \<Rightarrow> (error + unit) \<times> world" where
  "fix_types w =
     (case read_content w of
        Inl e \<Rightarrow> (Inl e, w)
      | Inr content \<Rightarrow>
          (case substitute content of
             Inl e \<Rightarrow> (Inl e, w)
           | Inr content' \<Rightarrow>
               (case write_content w content' of
                  (Inl e, w') \<Rightarrow> (Inl e, w')
                | (Inr u, w') \<Rightarrow> (Inr (), print_line ''Replacement completed'' w'))))"

text \<open>
  The status the interpreter exits with: 1 after an exception, 120 when the flush of
  standard output fails at the exit, 0 otherwise.
\<close>

definition exit_status :: "world \<Rightarrow> nat" where
  "exit_status w =
     (case fst (fix_types w) of
        Inl e \<Rightarrow> 1
      | Inr u \<Rightarrow> if console w = Refusing then 120 else 0)"

text \<open>What a run leaves in the target file, and the lines it prints.\<close>

definition target_data :: "world \<Rightarrow> file_data option" where
  "target_data w = (case files w target of Regular f \<Rightarrow> Some (data f) | e \<Rightarrow> None)"

definition printed :: "world \<Rightarrow> string list" where
  "printed w = drop (length (stdout w)) (stdout (snd (fix_types w)))"

subsection \<open>Worlds to run the script in\<close>

text \<open>
  \<open>world_at e k c\<close> has the entry \<open>e\<close> at the target path and no entry at any other,
  room \<open>k\<close> on the device, standard output in state \<open>c\<close> and no output yet.
  \<open>world_of f k\<close> has the file \<open>f\<close> at the target path and an accepting standard
  output; \<open>bare_world\<close> has no file at all.
\<close>

definition world_at :: "entry \<Rightarrow> nat option \<Rightarrow> console \<Rightarrow> world" where
  "world_at e k c =
     \<lparr>files = (\<lambda>p. if p = target then e else Absent True), room = k, console = c, stdout = []\<rparr>"

definition world_of :: "inode \<Rightarrow> nat option \<Rightarrow> world" where
  "world_of f k = world_at (Regular f) k Accepting"

definition bare_world :: world where
  "bare_world = world_at (Absent True) None Accepting"

section \<open>Properties of the substitution\<close>

subsection \<open>The matcher on a literal pattern\<close>

lemma match_at_literal:
  "match_at (map LITERAL p) s = (if prefix p s then Some (drop (length p) s) else None)"
proof (induction p arbitrary: s)
  case Nil
  show ?case by simp
next
  case (Cons a p)
  show ?case by (cases s) (simp_all add: Cons.IH)
qed

lemma sub_loop_literal: "sub_loop (map LITERAL p) r s = replace_all p r s"
proof (induction p r s rule: replace_all.induct)
  case (1 p r)
  show ?case by (simp add: match_at_literal)
next
  case (2 p r c cs)
  show ?case
  proof (cases "p = []")
    case True
    with 2 show ?thesis by simp
  next
    case False
    note ne = this
    show ?thesis
    proof (cases "prefix p (c # cs)")
      case True
      from ne have "length (drop (length p) (c # cs)) < Suc (length cs)" by simp
      with 2 ne True show ?thesis by (simp add: match_at_literal del: drop_Cons' )
    next
      case False
      with 2 ne show ?thesis by (simp add: match_at_literal)
    qed
  qed
qed

lemma sre_parse_literal:
  "set p \<inter> set SPECIAL_CHARS = {} \<Longrightarrow> sre_parse p = Inr (map LITERAL p)"
  by (induction p) (auto simp: SPECIAL_CHARS_def)

subsection \<open>Where a pattern cannot begin\<close>

lemma prefix_append_agree: "prefix p (b @ s) \<Longrightarrow> agree p b"
  by (induction p b rule: agree.induct) auto

lemma prefix_of_append_agree: "prefix b (r @ t) \<Longrightarrow> agree r b"
  by (induction r b rule: agree.induct) auto

lemma free_copied: "free p b \<Longrightarrow> replace_all p r (b @ s) = b @ replace_all p r s"
proof (induction b)
  case Nil
  show ?case by simp
next
  case (Cons x b)
  then have nc: "\<not> agree p (x # b)" and fr: "free p b" by simp_all
  from nc have ne: "p \<noteq> []" by auto
  from nc have "\<not> prefix p ((x # b) @ s)" using prefix_append_agree by blast
  with ne Cons.IH[OF fr] show ?case by simp
qed

lemma free_count: "free p b \<Longrightarrow> count_occ p (b @ s) = count_occ p s"
proof (induction b)
  case Nil
  show ?case by simp
next
  case (Cons x b)
  then have nc: "\<not> agree p (x # b)" and fr: "free p b" by simp_all
  from nc have "\<not> prefix p ((x # b) @ s)" using prefix_append_agree by blast
  with Cons.IH[OF fr] show ?case by simp
qed

lemma free_prefix_back:
  "free r b \<Longrightarrow> prefix b (replace_all p r s) \<Longrightarrow> prefix b s"
proof (induction b arbitrary: s)
  case Nil
  show ?case by simp
next
  case (Cons x b)
  then have nc: "\<not> agree r (x # b)" and fr: "free r b" by simp_all
  have nr: "\<not> prefix (x # b) (r @ t)" for t
    using nc prefix_of_append_agree by blast
  show ?case
  proof (cases s)
    case Nil
    with Cons.prems(2) nr[of "[]"] show ?thesis by (simp split: if_splits)
  next
    case (Cons c cs)
    with Cons.prems(2) nr have "x = c \<and> prefix b (replace_all p r cs)"
      by (simp split: if_splits)
    with Cons.IH[OF fr] Cons show ?thesis by simp
  qed
qed

subsection \<open>Occurrences before and after the replacement\<close>

lemma no_pattern_at_front:
  assumes "p \<noteq> []" "free r p"
  shows "\<not> prefix p (replace_all p r s)"
proof
  assume a: "prefix p (replace_all p r s)"
  with assms have ps: "prefix p s" using free_prefix_back by blast
  from assms obtain x p' where p: "p = x # p'" by (cases p) auto
  with assms have nc: "\<not> agree r p" by simp
  from ps assms obtain c cs where s: "s = c # cs" by (cases s) auto
  with ps assms a have "prefix p (r @ replace_all p r (drop (length p) s))" by simp
  with nc show False using prefix_of_append_agree by blast
qed

lemma replace_all_pattern_free:
  assumes "p \<noteq> []" "free r p" "free p r"
  shows "count_occ p (replace_all p r s) = 0"
  using assms
proof (induction p r s rule: replace_all.induct)
  case (1 p r)
  then show ?case by simp
next
  case (2 p r c cs)
  show ?case
  proof (cases "prefix p (c # cs)")
    case True
    with 2 show ?thesis by (simp add: free_count del: drop_Cons')
  next
    case False
    have "\<not> prefix p (replace_all p r (c # cs))"
      using "2.prems" no_pattern_at_front by blast
    with False 2 show ?thesis by simp
  qed
qed

lemma count_occ_self:
  assumes "p \<noteq> []" "free p (tl p)"
  shows "count_occ p (p @ s) = Suc (count_occ p s)"
proof -
  from assms obtain x p' where p: "p = x # p'" by (cases p) auto
  with assms have "free p p'" by simp
  then have "count_occ p (p' @ s) = count_occ p s" by (rule free_count)
  then have "count_occ p (x # p' @ s) = Suc (count_occ p s)"
    by (simp add: p)
  then show ?thesis by (simp add: p)
qed

lemma prefix_nonempty_Cons:
  "r \<noteq> [] \<Longrightarrow> prefix r (c # t) = (hd r = c \<and> prefix (tl r) t)"
  by (cases r) auto

lemma replace_all_counts:
  assumes "p \<noteq> []" "r \<noteq> []" "free r p" "free p r" "free p (tl p)" "free r (tl r)"
  shows "count_occ r (replace_all p r s) = count_occ p s + count_occ r s"
  using assms
proof (induction p r s rule: replace_all.induct)
  case (1 p r)
  then show ?case by simp
next
  case (2 p r c cs)
  show ?case
  proof (cases "prefix p (c # cs)")
    case True
    then obtain s' where s: "c # cs = p @ s'" by (auto simp: prefix_def)
    then have d: "drop (length p) (c # cs) = s'" by simp
    have ih: "count_occ r (replace_all p r s') = count_occ p s' + count_occ r s'"
      using 2 True d by simp
    have "replace_all p r (c # cs) = r @ replace_all p r s'"
      using True "2.prems"(1) d by (simp del: drop_Cons')
    moreover have "count_occ r (r @ replace_all p r s') = Suc (count_occ r (replace_all p r s'))"
      using "2.prems" by (simp add: count_occ_self)
    moreover have "count_occ p (p @ s') = Suc (count_occ p s')"
      using "2.prems" by (simp add: count_occ_self)
    moreover have "count_occ r (p @ s') = count_occ r s'"
      using "2.prems" by (simp add: free_count)
    ultimately show ?thesis using ih s by simp
  next
    case False
    have ra: "replace_all p r (c # cs) = c # replace_all p r cs"
      using False "2.prems"(1) by simp
    have ih: "count_occ r (replace_all p r cs) = count_occ p cs + count_occ r cs"
      using 2 False by simp
    have fr: "free r (tl r)" and rne: "r \<noteq> []" using "2.prems" by simp_all
    have "prefix r (c # replace_all p r cs) = prefix r (c # cs)"
    proof
      assume "prefix r (c # replace_all p r cs)"
      then have "hd r = c" and "prefix (tl r) (replace_all p r cs)"
        using rne by (simp_all add: prefix_nonempty_Cons)
      with fr have "prefix (tl r) cs" using free_prefix_back by blast
      with \<open>hd r = c\<close> show "prefix r (c # cs)"
        using rne by (simp add: prefix_nonempty_Cons)
    next
      assume "prefix r (c # cs)"
      then obtain s' where s: "c # cs = r @ s'" by (auto simp: prefix_def)
      have "replace_all p r (r @ s') = r @ replace_all p r s'"
        using "2.prems" by (simp add: free_copied)
      with s ra have "c # replace_all p r cs = r @ replace_all p r s'" by simp
      then show "prefix r (c # replace_all p r cs)" by (simp only: prefixI)
    qed
    with ih False ra show ?thesis by simp
  qed
qed

lemma replace_all_no_occurrence: "count_occ p t = 0 \<Longrightarrow> replace_all p r t = t"
proof (induction t)
  case Nil
  then show ?case by (simp split: if_splits)
next
  case (Cons c t)
  from Cons.prems have "\<not> prefix p (c # t)" and "count_occ p t = 0"
    by (simp_all split: if_splits)
  moreover from \<open>\<not> prefix p (c # t)\<close> have "p \<noteq> []" by auto
  ultimately show ?case using Cons.IH by simp
qed

lemma replace_all_length:
  assumes "p \<noteq> []" "free p (tl p)"
  shows "length (replace_all p r s) + length p * count_occ p s
           = length s + length r * count_occ p s"
  using assms
proof (induction p r s rule: replace_all.induct)
  case (1 p r)
  then show ?case by simp
next
  case (2 p r c cs)
  show ?case
  proof (cases "prefix p (c # cs)")
    case True
    then obtain s' where s: "c # cs = p @ s'" by (auto simp: prefix_def)
    then have d: "drop (length p) (c # cs) = s'" by simp
    have ih: "length (replace_all p r s') + length p * count_occ p s'
                = length s' + length r * count_occ p s'"
      using 2 True d by simp
    have ra: "replace_all p r (c # cs) = r @ replace_all p r s'"
      using True "2.prems"(1) d by (simp del: drop_Cons')
    have cnt: "count_occ p (c # cs) = Suc (count_occ p s')"
      using "2.prems" s by (simp add: count_occ_self)
    have len: "length (c # cs) = length p + length s'"
      using s by (metis length_append)
    show ?thesis unfolding ra cnt len using ih by simp
  next
    case False
    with 2 show ?thesis by simp
  qed
qed

subsection \<open>The pieces outside the matches\<close>

lemma outside_nonempty: "outside p s \<noteq> []"
  by (induction p s rule: outside.induct) (auto split: list.splits)

lemma join_outside:
  "p \<noteq> [] \<Longrightarrow> join p (outside p s) = s \<and> join r (outside p s) = replace_all p r s"
proof (induction p s rule: outside.induct)
  case (1 p)
  then show ?case by simp
next
  case (2 p c cs)
  show ?case
  proof (cases "prefix p (c # cs)")
    case True
    then obtain s' where s: "c # cs = p @ s'" by (auto simp: prefix_def)
    then have d: "drop (length p) (c # cs) = s'" by simp
    obtain seg segs where o: "outside p s' = seg # segs"
      using outside_nonempty[of p s'] by (cases "outside p s'") auto
    have ih: "join p (outside p s') = s' \<and> join r (outside p s') = replace_all p r s'"
      using 2 True d by simp
    have "outside p (c # cs) = [] # seg # segs"
      using True "2.prems" d o by (simp del: drop_Cons')
    moreover have "replace_all p r (c # cs) = r @ replace_all p r s'"
      using True "2.prems" d by (simp del: drop_Cons')
    ultimately show ?thesis using ih o s by simp
  next
    case False
    obtain seg segs where o: "outside p cs = seg # segs"
      using outside_nonempty[of p cs] by (cases "outside p cs") auto
    have ih: "join p (outside p cs) = cs \<and> join r (outside p cs) = replace_all p r cs"
      using 2 False by simp
    have j: "join sep ((c # seg) # segs) = c # join sep (seg # segs)" for sep
      by (cases segs) simp_all
    show ?thesis using False "2.prems" ih o j by simp
  qed
qed

lemma outside_first_prefix: "p \<noteq> [] \<Longrightarrow> prefix (hd (outside p s)) s"
proof (induction p s rule: outside.induct)
  case (1 p)
  then show ?case by simp
next
  case (2 p c cs)
  then show ?case by (cases "outside p cs") (auto)
qed

lemma outside_pieces_clean:
  "p \<noteq> [] \<Longrightarrow> seg \<in> set (outside p s) \<Longrightarrow> count_occ p seg = 0"
proof (induction p s arbitrary: seg rule: outside.induct)
  case (1 p)
  then show ?case by simp
next
  case (2 p c cs)
  show ?case
  proof (cases "prefix p (c # cs)")
    case True
    with 2 show ?thesis by (auto simp del: drop_Cons')
  next
    case False
    obtain sg segs where o: "outside p cs = sg # segs"
      using outside_nonempty[of p cs] by (cases "outside p cs") auto
    from outside_first_prefix[OF "2.prems"(1), of cs] o have pf: "prefix sg cs" by simp
    have np: "\<not> prefix p (c # sg)"
    proof
      assume "prefix p (c # sg)"
      moreover have "prefix (c # sg) (c # cs)" using pf by simp
      ultimately have "prefix p (c # cs)" by (rule prefix_order.trans)
      with False show False by simp
    qed
    have "count_occ p sg = 0" using 2(2)[of sg] False "2.prems"(1) o by simp
    with np have "count_occ p (c # sg) = 0" by simp
    moreover have "seg = c # sg \<or> seg \<in> set (outside p cs)"
      using "2.prems"(2) False o by auto
    ultimately show ?thesis using 2(2)[of seg] False "2.prems"(1) by auto
  qed
qed

lemma outside_length:
  assumes "p \<noteq> []" "free p (tl p)"
  shows "length (outside p s) = Suc (count_occ p s)"
  using assms
proof (induction p s rule: outside.induct)
  case (1 p)
  then show ?case by simp
next
  case (2 p c cs)
  show ?case
  proof (cases "prefix p (c # cs)")
    case True
    then obtain s' where s: "c # cs = p @ s'" by (auto simp: prefix_def)
    then have d: "drop (length p) (c # cs) = s'" by simp
    have "count_occ p (c # cs) = Suc (count_occ p s')"
      using "2.prems" s by (simp add: count_occ_self)
    moreover have "length (outside p s') = Suc (count_occ p s')"
      using 2 True d by simp
    moreover have "outside p (c # cs) = [] # outside p s'"
      using True "2.prems" d by (simp del: drop_Cons')
    ultimately show ?thesis by simp
  next
    case False
    obtain sg segs where o: "outside p cs = sg # segs"
      using outside_nonempty[of p cs] by (cases "outside p cs") auto
    with 2 False show ?thesis by simp
  qed
qed

subsection \<open>Facts about the rule\<close>

text \<open>
  Neither the pattern nor the replacement can begin inside the other or inside itself,
  and the pattern cannot begin where the replacement begins.
\<close>

lemma rule_facts:
  "free pattern replacement" "free replacement pattern"
  "free pattern (tl pattern)" "free replacement (tl replacement)"
  "pattern \<noteq> []" "replacement \<noteq> []"
  by (simp_all add: pattern_def replacement_def)

lemma pattern_parses: "sre_parse pattern = Inr (map LITERAL pattern)"
  by (rule sre_parse_literal) (simp add: pattern_def SPECIAL_CHARS_def)

lemma template_parses: "parse_template replacement = Inr replacement"
  by (simp add: parse_template_def replacement_def)

lemma substitute_replace_all: "substitute s = Inr (replace_all pattern replacement s)"
  by (simp add: substitute_def re_sub_def pattern_parses template_parses sub_loop_literal)

text \<open>\<open>count_occ\<close> counts the positions at which the pattern is a prefix of the rest.\<close>

lemma count_occ_positions:
  "count_occ p s = length (filter (\<lambda>i. prefix p (drop i s)) [0..<Suc (length s)])"
proof (induction s)
  case Nil
  show ?case by simp
next
  case (Cons c s)
  have "[0..<Suc (length (c # s))] = 0 # map Suc [0..<Suc (length s)]"
    by (simp add: upt_conv_Cons map_Suc_upt del: upt_Suc)
  then show ?case using Cons.IH by (simp add: filter_map o_def del: upt_Suc)
qed

subsection \<open>The claims about the substitution\<close>

text \<open>
  C7. The regular-expression substitution of the script equals the replacement of each
  leftmost, non-overlapping occurrence of the literal string, scanning left to right:
  the pattern has no special character, so it parses to literal nodes only, and the
  matcher on literal nodes is the prefix test.
\<close>

theorem re_sub_is_literal_replacement:
  "re_sub ''result as GenericData'' ''result as unknown as GenericData'' s
     = Inr (replace_all ''result as GenericData'' ''result as unknown as GenericData'' s)
   \<and> substitute s = re_sub ''result as GenericData'' ''result as unknown as GenericData'' s"
proof -
  have "re_sub pattern replacement s = Inr (replace_all pattern replacement s)"
    by (simp add: re_sub_def pattern_parses template_parses sub_loop_literal)
  then show ?thesis by (simp add: substitute_def pattern_def replacement_def)
qed

theorem re_sub_is_literal_replacement_witness:
  "re_sub ''result as GenericData'' ''result as unknown as GenericData''
      ''return result as GenericData;''
     = Inr ''return result as unknown as GenericData;''"
  using re_sub_is_literal_replacement [of "''return result as GenericData;''"]
  by simp

text \<open>
  C1, as the code has it. The output has no occurrence of the pattern, and it has as
  many occurrences of the replacement as the input has of the pattern and of the
  replacement together: the occurrences of the replacement that the input already has
  are copied. So the output has exactly N occurrences of the replacement when the input
  has N of the pattern and none of the replacement, as in the example with three.
\<close>

theorem substitute_counts:
  "\<exists>t. substitute s = Inr t
     \<and> count_occ replacement t = count_occ pattern s + count_occ replacement s
     \<and> count_occ pattern t = 0"
  by (simp add: substitute_replace_all replace_all_counts replace_all_pattern_free rule_facts)

theorem substitute_counts_witness:
  "count_occ pattern ''a result as GenericData b result as GenericData c result as GenericData'' = 3
   \<and> count_occ replacement ''a result as GenericData b result as GenericData c result as GenericData'' = 0
   \<and> (\<exists>t. substitute ''a result as GenericData b result as GenericData c result as GenericData'' = Inr t
         \<and> count_occ replacement t = 3 \<and> count_occ pattern t = 0)"
proof -
  have n: "count_occ pattern ''a result as GenericData b result as GenericData c result as GenericData'' = 3"
    by (simp add: pattern_def)
  have m: "count_occ replacement ''a result as GenericData b result as GenericData c result as GenericData'' = 0"
    by (simp add: replacement_def)
  show ?thesis
    using substitute_counts [of "''a result as GenericData b result as GenericData c result as GenericData''"]
    unfolding n m by simp
qed

text \<open>
  C1 as stated fails on a text that is already patched: it has no occurrence of the
  pattern, the substitution returns it as it is, and it has one occurrence of the
  replacement, not none.
\<close>

theorem substitute_counts_counterexample:
  "count_occ pattern ''result as unknown as GenericData'' = 0
   \<and> substitute ''result as unknown as GenericData'' = Inr ''result as unknown as GenericData''
   \<and> count_occ replacement ''result as unknown as GenericData'' = 1"
proof -
  have n: "count_occ pattern ''result as unknown as GenericData'' = 0"
    by (simp add: pattern_def)
  have m: "count_occ replacement ''result as unknown as GenericData'' = 1"
    by (simp add: replacement_def)
  have "replace_all pattern replacement ''result as unknown as GenericData''
          = ''result as unknown as GenericData''"
    using n by (rule replace_all_no_occurrence)
  with n m show ?thesis by (simp add: substitute_replace_all)
qed

text \<open>
  C2. The substitution is idempotent: applied to its own output it returns that
  output. The replacement text has no occurrence of the pattern.
\<close>

theorem substitute_idempotent:
  "\<exists>t. substitute s = Inr t \<and> substitute t = Inr t \<and> count_occ pattern replacement = 0"
proof -
  have "count_occ pattern (replace_all pattern replacement s) = 0"
    by (simp add: replace_all_pattern_free rule_facts)
  then have "replace_all pattern replacement (replace_all pattern replacement s)
               = replace_all pattern replacement s"
    by (rule replace_all_no_occurrence)
  moreover have "count_occ pattern replacement = 0"
    by (simp add: pattern_def replacement_def)
  ultimately show ?thesis by (simp add: substitute_replace_all)
qed

theorem substitute_idempotent_witness:
  "substitute ''x = result as GenericData'' = Inr ''x = result as unknown as GenericData''
   \<and> substitute ''x = result as unknown as GenericData'' = Inr ''x = result as unknown as GenericData''"
proof -
  have a: "substitute ''x = result as GenericData'' = Inr ''x = result as unknown as GenericData''"
    by (simp add: substitute_replace_all pattern_def replacement_def)
  from substitute_idempotent [of "''x = result as GenericData''"] a show ?thesis by auto
qed

text \<open>
  C3. The text outside the matches is kept: the input is its pieces with the pattern
  between them, the output is the same pieces, in the same order, with the replacement
  between them. No piece has an occurrence of the pattern, and there is one piece more
  than there are occurrences.
\<close>

theorem substitute_keeps_outside:
  "\<exists>t. substitute s = Inr t
     \<and> join pattern (outside pattern s) = s
     \<and> join replacement (outside pattern s) = t
     \<and> list_all (\<lambda>seg. count_occ pattern seg = 0) (outside pattern s)
     \<and> length (outside pattern s) = Suc (count_occ pattern s)"
proof -
  have "list_all (\<lambda>seg. count_occ pattern seg = 0) (outside pattern s)"
    unfolding list_all_iff using outside_pieces_clean rule_facts(5) by blast
  then show ?thesis
    by (simp add: substitute_replace_all join_outside outside_length rule_facts)
qed

theorem substitute_keeps_outside_witness:
  "outside pattern ''f(result as GenericData, g(result as GenericData))'' = [''f('', '', g('', ''))'']
   \<and> substitute ''f(result as GenericData, g(result as GenericData))''
       = Inr (join replacement [''f('', '', g('', ''))''])"
proof -
  have o: "outside pattern ''f(result as GenericData, g(result as GenericData))'' = [''f('', '', g('', ''))'']"
    by (simp add: pattern_def)
  from substitute_keeps_outside [of "''f(result as GenericData, g(result as GenericData))''"]
  show ?thesis unfolding o by auto
qed

text \<open>
  C9. The output is longer than the input by eleven characters for each occurrence of
  the pattern, and never shorter than the input.
\<close>

theorem substitute_length:
  "\<exists>t. substitute s = Inr t
     \<and> length t = length s + 11 * count_occ pattern s
     \<and> length s \<le> length t"
proof -
  have "length (replace_all pattern replacement s) + length pattern * count_occ pattern s
          = length s + length replacement * count_occ pattern s"
    by (rule replace_all_length) (simp_all add: rule_facts)
  moreover have "length pattern = 21" and "length replacement = 32"
    by (simp_all add: pattern_def replacement_def)
  ultimately have "length (replace_all pattern replacement s) = length s + 11 * count_occ pattern s"
    by simp
  then show ?thesis by (simp add: substitute_replace_all)
qed

theorem substitute_length_witness:
  "count_occ pattern ''(result as GenericData)(result as GenericData)'' = 2
   \<and> (\<exists>t. substitute ''(result as GenericData)(result as GenericData)'' = Inr t \<and> length t = 68)"
proof -
  have n: "count_occ pattern ''(result as GenericData)(result as GenericData)'' = 2"
    by (simp add: pattern_def)
  from substitute_length [of "''(result as GenericData)(result as GenericData)''"]
  show ?thesis unfolding n by auto
qed

section \<open>Properties of the run\<close>

subsection \<open>The steps, case by case\<close>

lemma read_content_Inr:
  "read_content w = Inr c \<longleftrightarrow>
     (\<exists>f. files w target = Regular f \<and> readable f \<and> data f = Text c)"
  by (auto simp: read_content_def open_read_def read_text_def
           split: entry.splits file_data.splits)

lemma read_content_not_regular:
  "\<forall>f. files w target \<noteq> Regular f \<Longrightarrow>
     read_content w = Inl (lookup_error (files w target))"
  by (cases "files w target") (simp_all add: read_content_def open_read_def)


lemma room_set_data: "room (set_data w p d) = room w"
  by (simp add: set_data_def)


lemma write_content_protected:
  "files w target = Regular f \<Longrightarrow> \<not> writable f \<Longrightarrow>
     write_content w s = (Inl PermissionError, w)"
  by (simp add: write_content_def open_write_def)

lemma write_content_done:
  assumes "files w target = Regular f" "writable f"
    "room w = None \<or> (\<exists>k. room w = Some k \<and> length s \<le> k)"
  shows "fst (write_content w s) = Inr ()"
    and "target_data (snd (write_content w s)) = Some (Text s)"
  using assms
  by (auto simp: write_content_def open_write_def write_text_def room_set_data
                 target_data_def set_data_def)

lemma write_content_cut:
  assumes "files w target = Regular f" "writable f" "room w = Some k" "k < length s"
  shows "fst (write_content w s) = Inl OSError"
    and "target_data (snd (write_content w s)) = Some (Text (take k s))"
  using assms
  by (auto simp: write_content_def open_write_def write_text_def room_set_data
                 target_data_def set_data_def)



lemma fix_types_read_failed: "read_content w = Inl e \<Longrightarrow> fix_types w = (Inl e, w)"
  by (simp add: fix_types_def)

lemma fix_types_read_done:
  "read_content w = Inr c \<Longrightarrow>
     fix_types w =
       (case write_content w (replace_all pattern replacement c) of
          (Inl e, w') \<Rightarrow> (Inl e, w')
        | (Inr u, w') \<Rightarrow> (Inr (), print_line ''Replacement completed'' w'))"
  by (simp add: fix_types_def substitute_replace_all)

lemma fix_types_fst:
  "read_content w = Inr c \<Longrightarrow>
     fst (fix_types w) = fst (write_content w (replace_all pattern replacement c))"
  by (simp add: fix_types_read_done split: prod.splits sum.splits)

lemma files_print_line: "files (print_line l w) = files w"
  by (simp add: print_line_def split: console.splits)

lemma fix_types_files:
  "read_content w = Inr c \<Longrightarrow>
     files (snd (fix_types w)) = files (snd (write_content w (replace_all pattern replacement c)))"
  by (simp add: fix_types_read_done files_print_line split: prod.splits sum.splits)




lemma target_data_files: "files w = files w' \<Longrightarrow> target_data w = target_data w'"
  by (simp add: target_data_def)

lemmas run_defs =
  fix_types_def read_content_def open_read_def read_text_def write_content_def
  open_write_def write_text_def set_data_def print_line_def target_data_def printed_def
  world_at_def world_of_def bare_world_def exit_status_def substitute_replace_all

subsection \<open>The claims about the run\<close>

text \<open>
  C5, as the code has it. When no entry exists at the target path, the read raises the
  file-not-found error. When the path fails to lead to a regular file for another
  reason, the read raises the error of that reason: a component of the path is a
  regular file, a directory of the path cannot be searched, or the path names a
  directory. In each case the run ends at the read with the world as it was, so nothing
  is written and nothing is created.
\<close>

theorem fix_types_no_file:
  "((files w target = Absent b \<or> files w target = NoParent) \<longrightarrow>
       read_content w = Inl FileNotFoundError \<and> fix_types w = (Inl FileNotFoundError, w))
   \<and> (files w target = NotDir \<longrightarrow>
         read_content w = Inl NotADirectoryError \<and> fix_types w = (Inl NotADirectoryError, w))
   \<and> (files w target = NoSearch \<longrightarrow>
         read_content w = Inl PermissionError \<and> fix_types w = (Inl PermissionError, w))
   \<and> (files w target = IsDir \<longrightarrow>
         read_content w = Inl IsADirectoryError \<and> fix_types w = (Inl IsADirectoryError, w))
   \<and> ((\<forall>f. files w target \<noteq> Regular f) \<longrightarrow>
         (\<exists>e. read_content w = Inl e \<and> fix_types w = (Inl e, w))
         \<and> files (snd (fix_types w)) = files w)"
proof -
  have g: "read_content w = Inl (lookup_error (files w target))
           \<and> fix_types w = (Inl (lookup_error (files w target)), w)"
    if "\<forall>f. files w target \<noteq> Regular f"
    using read_content_not_regular[OF that] by (simp add: fix_types_read_failed)
  have a: "read_content w = Inl FileNotFoundError \<and> fix_types w = (Inl FileNotFoundError, w)"
    if "files w target = Absent b \<or> files w target = NoParent"
    using that g by auto
  have b: "read_content w = Inl NotADirectoryError \<and> fix_types w = (Inl NotADirectoryError, w)"
    if "files w target = NotDir"
    using that g by auto
  have c: "read_content w = Inl PermissionError \<and> fix_types w = (Inl PermissionError, w)"
    if "files w target = NoSearch"
    using that g by auto
  have d: "read_content w = Inl IsADirectoryError \<and> fix_types w = (Inl IsADirectoryError, w)"
    if "files w target = IsDir"
    using that g by auto
  have e: "(\<exists>e. read_content w = Inl e \<and> fix_types w = (Inl e, w))
           \<and> files (snd (fix_types w)) = files w"
    if "\<forall>f. files w target \<noteq> Regular f"
    using g[OF that] by auto
  from a b c d e show ?thesis by blast
qed

theorem fix_types_no_file_witness:
  "files bare_world target = Absent True
   \<and> fix_types bare_world = (Inl FileNotFoundError, bare_world)
   \<and> files (world_at NoParent None Accepting) target = NoParent
   \<and> fix_types (world_at NoParent None Accepting)
       = (Inl FileNotFoundError, world_at NoParent None Accepting)
   \<and> files (world_at NotDir None Accepting) target = NotDir
   \<and> fix_types (world_at NotDir None Accepting)
       = (Inl NotADirectoryError, world_at NotDir None Accepting)
   \<and> files (world_at NoSearch None Accepting) target = NoSearch
   \<and> fix_types (world_at NoSearch None Accepting)
       = (Inl PermissionError, world_at NoSearch None Accepting)
   \<and> files (world_at IsDir None Accepting) target = IsDir
   \<and> fix_types (world_at IsDir None Accepting)
       = (Inl IsADirectoryError, world_at IsDir None Accepting)"
proof -
  have h1: "files bare_world target = Absent True"
    by (simp add: bare_world_def world_at_def)
  have h2: "files (world_at e None Accepting) target = e" for e
    by (simp add: world_at_def)
  from h1 h2
    fix_types_no_file [of bare_world True]
    fix_types_no_file [of "world_at NoParent None Accepting"]
    fix_types_no_file [of "world_at NotDir None Accepting"]
    fix_types_no_file [of "world_at NoSearch None Accepting"]
    fix_types_no_file [of "world_at IsDir None Accepting"]
  show ?thesis by simp
qed

text \<open>
  C5 as stated fails when a component of the target path is a regular file: the path
  leads to no file, and the read raises the not-a-directory error, not the
  file-not-found error.
\<close>

theorem fix_types_no_file_counterexample:
  "files (world_at NotDir None Accepting) target = NotDir
   \<and> read_content (world_at NotDir None Accepting) = Inl NotADirectoryError
   \<and> fst (fix_types (world_at NotDir None Accepting)) = Inl NotADirectoryError
   \<and> NotADirectoryError \<noteq> FileNotFoundError"
  by (simp add: run_defs)

text \<open>
  C6. The substitution maps the empty text to the empty text, so a run on an empty
  target file leaves it empty, whether the run succeeds or not; on an empty file that
  can be read and written the run succeeds.
\<close>

theorem fix_types_empty_file:
  "substitute [] = Inr []
   \<and> (target_data w = Some (Text []) \<longrightarrow> target_data (snd (fix_types w)) = Some (Text []))
   \<and> (files w target = Regular \<lparr>data = Text [], readable = True, writable = True\<rparr>
        \<longrightarrow> fst (fix_types w) = Inr ())"
proof -
  have a: "substitute [] = Inr []" by (simp add: substitute_replace_all rule_facts)
  have b: "target_data (snd (fix_types w)) = Some (Text [])" if t: "target_data w = Some (Text [])"
  proof -
    from t obtain f where f: "files w target = Regular f" "data f = Text []"
      by (auto simp: target_data_def split: entry.splits)
    show ?thesis
    proof (cases "readable f")
      case False
      with f have "read_content w = Inl PermissionError"
        by (simp add: read_content_def open_read_def)
      then show ?thesis using t by (simp add: fix_types_read_failed)
    next
      case True
      with f have r: "read_content w = Inr []" by (simp add: read_content_Inr)
      show ?thesis
      proof (cases "writable f")
        case False
        with f t show ?thesis
          by (simp add: target_data_files[OF fix_types_files[OF r]] rule_facts write_content_protected)
      next
        case True
        have "room w = None \<or> (\<exists>k. room w = Some k \<and> length ([]::string) \<le> k)"
          by (cases "room w") simp_all
        with f(1) True have "target_data (snd (write_content w [])) = Some (Text [])"
          by (rule write_content_done(2))
        then show ?thesis
          by (simp add: target_data_files[OF fix_types_files[OF r]] rule_facts)
      qed
    qed
  qed
  have c: "fst (fix_types w) = Inr ()"
    if f: "files w target = Regular \<lparr>data = Text [], readable = True, writable = True\<rparr>"
  proof -
    from f have r: "read_content w = Inr []" by (simp add: read_content_Inr)
    have wr: "writable \<lparr>data = Text [], readable = True, writable = True\<rparr>" by simp
    have "room w = None \<or> (\<exists>k. room w = Some k \<and> length ([]::string) \<le> k)"
      by (cases "room w") simp_all
    with f wr have "fst (write_content w []) = Inr ()"
      by (rule write_content_done(1))
    then show ?thesis by (simp add: fix_types_fst[OF r] rule_facts)
  qed
  from a b c show ?thesis by blast
qed

theorem fix_types_empty_file_witness:
  "files (world_of \<lparr>data = Text [], readable = True, writable = True\<rparr> None) target
     = Regular \<lparr>data = Text [], readable = True, writable = True\<rparr>
   \<and> target_data (world_of \<lparr>data = Text [], readable = True, writable = True\<rparr> None) = Some (Text [])
   \<and> fst (fix_types (world_of \<lparr>data = Text [], readable = True, writable = True\<rparr> None)) = Inr ()
   \<and> target_data (snd (fix_types (world_of \<lparr>data = Text [], readable = True, writable = True\<rparr> None)))
       = Some (Text [])"
proof -
  have h: "files (world_of \<lparr>data = Text [], readable = True, writable = True\<rparr> None) target
             = Regular \<lparr>data = Text [], readable = True, writable = True\<rparr>"
    by (simp add: world_of_def world_at_def)
  then have t: "target_data (world_of \<lparr>data = Text [], readable = True, writable = True\<rparr> None)
             = Some (Text [])"
    by (simp add: target_data_def)
  from fix_types_empty_file [of "world_of \<lparr>data = Text [], readable = True, writable = True\<rparr> None"]
    h t
  show ?thesis by simp
qed




text \<open>
  C4, as the code has it. A run ends in one of three ways. Read and write succeed and
  the file holds the transformed text. Or the run fails before anything is written, at
  the read or because the open for writing is refused, and the world is exactly as
  before. Or the open for writing has truncated the file and the write then fails: the
  file holds only the part of the transformed text that the device took.
\<close>

theorem fix_types_outcomes:
  "(\<exists>c t. read_content w = Inr c \<and> substitute c = Inr t
       \<and> fst (fix_types w) = Inr ()
       \<and> target_data (snd (fix_types w)) = Some (Text t))
   \<or> (\<exists>e. (read_content w = Inl e
             \<or> (\<exists>c. read_content w = Inr c \<and> open_write w target = Inl e))
          \<and> fix_types w = (Inl e, w))
   \<or> (\<exists>c t k. read_content w = Inr c \<and> substitute c = Inr t
          \<and> room w = Some k \<and> k < length t
          \<and> fst (fix_types w) = Inl OSError
          \<and> target_data (snd (fix_types w)) = Some (Text (take k t)))"
proof (cases "read_content w")
  case (Inl e)
  then show ?thesis by (simp add: fix_types_read_failed)
next
  case (Inr c)
  let ?t = "replace_all pattern replacement c"
  have st: "substitute c = Inr ?t" by (rule substitute_replace_all)
  from Inr obtain f where f: "files w target = Regular f"
    by (auto simp: read_content_Inr)
  note fs = fix_types_fst[OF Inr]
  note td = target_data_files[OF fix_types_files[OF Inr]]
  show ?thesis
  proof (cases "writable f")
    case False
    with f have "open_write w target = Inl PermissionError"
      by (simp add: open_write_def)
    moreover from f False have "fix_types w = (Inl PermissionError, w)"
      by (simp add: fix_types_read_done[OF Inr] write_content_protected)
    ultimately show ?thesis using Inr by blast
  next
    case True
    show ?thesis
    proof (cases "room w = None \<or> (\<exists>k. room w = Some k \<and> length ?t \<le> k)")
      case True
      note write_content_done[OF f \<open>writable f\<close> True]
      then have "fst (fix_types w) = Inr ()"
        and "target_data (snd (fix_types w)) = Some (Text ?t)"
        by (simp_all add: fs td)
      with Inr st show ?thesis by blast
    next
      case False
      then obtain k where k: "room w = Some k" "k < length ?t"
        by (cases "room w") auto
      note write_content_cut[OF f \<open>writable f\<close> k]
      then have "fst (fix_types w) = Inl OSError"
        and "target_data (snd (fix_types w)) = Some (Text (take k ?t))"
        by (simp_all add: fs td)
      with Inr st k show ?thesis by blast
    qed
  qed
qed

theorem fix_types_outcomes_witness:
  "fst (fix_types (world_of \<lparr>data = Text ''result as GenericData'', readable = True, writable = True\<rparr> (Some 40)))
     = Inr ()
   \<and> target_data (snd (fix_types
         (world_of \<lparr>data = Text ''result as GenericData'', readable = True, writable = True\<rparr> (Some 40))))
       = Some (Text ''result as unknown as GenericData'')"
  using fix_types_outcomes
    [of "world_of \<lparr>data = Text ''result as GenericData'', readable = True, writable = True\<rparr> (Some 40)"]
  by (simp add: run_defs pattern_def replacement_def)

text \<open>
  C4 as stated fails when the device refuses the write: the open for writing has
  emptied the file by then, so the run fails and the file is not as it was.
\<close>

theorem fix_types_outcomes_counterexample:
  "target_data (world_of \<lparr>data = Text ''result as GenericData'', readable = True, writable = True\<rparr> (Some 0))
     = Some (Text ''result as GenericData'')
   \<and> fst (fix_types (world_of \<lparr>data = Text ''result as GenericData'', readable = True, writable = True\<rparr> (Some 0)))
       = Inl OSError
   \<and> target_data (snd (fix_types
         (world_of \<lparr>data = Text ''result as GenericData'', readable = True, writable = True\<rparr> (Some 0))))
       = Some (Text [])"
  by (simp add: run_defs pattern_def replacement_def)




end
